theory Spec2Isabelle
  imports Complex_Main "HOL-Library.Multiset"
begin

section \<open>The chunker of main.go\<close>

text \<open>
  A Go string is a sequence of bytes and \<open>len\<close> counts bytes; so does \<open>string\<close>
  (a list of 8-bit characters) with \<open>length\<close>. The \<open>int\<close> of Go is modelled by
  \<open>int\<close>; no length in the program comes near its bounds.
\<close>

subsection \<open>Library functions the chunker calls\<close>

text \<open>
  \<open>strings.Join(elems, sep)\<close>: the elements in order, \<open>sep\<close> between each two.
\<close>

fun Join :: "string list \<Rightarrow> string \<Rightarrow> string" where
  "Join [] sep = []"
| "Join [x] sep = x"
| "Join (x # y # zs) sep = x @ sep @ Join (y # zs) sep"

text \<open>
  \<open>strings.Fields\<close> splits around runs of white space. On a text whose bytes are all
  below 0x80 the Go library takes the separators from its table \<open>asciiSpace\<close>: tab, line
  feed, vertical tab, form feed, carriage return and space. \<open>Fields\<close> is that function;
  \<open>cur\<close> holds the bytes of the field being read. On other texts the library decodes
  UTF-8 and asks \<open>unicode.IsSpace\<close>, so \<open>chunkText\<close> below takes the splitting function
  as its first argument, and the general theorems hold for every such function.
\<close>

definition asciiSpace :: "char \<Rightarrow> bool" where
  "asciiSpace c = (c = CHR 0x09 \<or> c = CHR 0x0A \<or> c = CHR 0x0B \<or> c = CHR 0x0C
                   \<or> c = CHR 0x0D \<or> c = CHR '' '')"

fun fieldsFrom :: "string \<Rightarrow> string \<Rightarrow> string list" where
  "fieldsFrom cur [] = (if cur = [] then [] else [cur])"
| "fieldsFrom cur (c # cs) =
     (if asciiSpace c
      then (if cur = [] then fieldsFrom [] cs else cur # fieldsFrom [] cs)
      else fieldsFrom (cur @ [c]) cs)"

definition Fields :: "string \<Rightarrow> string list" where
  "Fields s = fieldsFrom [] s"

subsection \<open>chunkText\<close>

text \<open>
  The loop \<open>for _, word := range words\<close> of \<open>chunkText\<close>, with the two slices it
  updates: \<open>chunks\<close> and \<open>buf\<close>.
\<close>

fun chunkLoop :: "int \<Rightarrow> string list \<Rightarrow> string list \<Rightarrow> string list
                  \<Rightarrow> string list \<times> string list" where
  "chunkLoop maxLen [] chunks buf = (chunks, buf)"
| "chunkLoop maxLen (word # words) chunks buf =
     (let testBuf = buf @ [word];
          testChunk = Join testBuf '' ''
      in if int (length testChunk) > maxLen \<and> length buf > 0
         then chunkLoop maxLen words (chunks @ [Join buf '' '']) [word]
         else chunkLoop maxLen words chunks (buf @ [word]))"

definition chunkText :: "(string \<Rightarrow> string list) \<Rightarrow> string \<Rightarrow> int \<Rightarrow> string list" where
  "chunkText fieldsFn text maxLen =
     (if maxLen \<le> 0 then fieldsFn text
      else
        let words = fieldsFn text in
        if length words = 0 then []
        else
          case chunkLoop maxLen words [] [] of
            (chunks, buf) \<Rightarrow>
              if length buf > 0 then chunks @ [Join buf '' ''] else chunks)"

text \<open>
  The shape of the fragments, used to state what the loop maintains: a group is the list of
  words joined into one fragment; it is never empty, and it fits \<open>maxLen\<close> unless it is
  a single word.
\<close>

definition boundedGroup :: "int \<Rightarrow> string list \<Rightarrow> bool" where
  "boundedGroup maxLen g =
     (g \<noteq> [] \<and> (int (length (Join g '' '')) \<le> maxLen \<or> length g = 1))"

section \<open>The vector store of main.go\<close>

subsection \<open>float32 arithmetic\<close>

text \<open>
  The program computes on \<open>float32\<close>. Its arithmetic belongs to the Go runtime, so the
  model takes it as a parameter: a value of \<open>'f arith\<close> gives the zero value of the
  type, \<open>+\<close>, \<open>*\<close>, \<open>/\<close>, the comparison \<open>>\<close>, and \<open>fsqrt\<close>, which is the helper
  \<open>sqrt\<close> of main.go (\<open>float32(math.Sqrt(float64(x)))\<close>). Each operation of the
  source is one application of these, in the order the source writes them. Nothing is
  assumed of the operations except where a theorem says so.
\<close>

record 'f arith =
  fzero :: 'f
  fadd :: "'f \<Rightarrow> 'f \<Rightarrow> 'f"
  fmul :: "'f \<Rightarrow> 'f \<Rightarrow> 'f"
  fdiv :: "'f \<Rightarrow> 'f \<Rightarrow> 'f"
  fsqrt :: "'f \<Rightarrow> 'f"
  fgt :: "'f \<Rightarrow> 'f \<Rightarrow> bool"

text \<open>The classes of IEEE-754 values that the statements about division speak of.\<close>

datatype fclass = Zero | NonZero | Infinite | NotANumber

text \<open>
  The rules of IEEE-754 for a zero factor and for a zero or not-a-number divisor:
  \<open>0 * x\<close> is a zero, or not a number when \<open>x\<close> is infinite or not a number; \<open>x / 0\<close>
  is an infinity or not a number, and \<open>x / NaN\<close> is not a number.
\<close>

definition ieeeZeroRules :: "'f arith \<Rightarrow> ('f \<Rightarrow> fclass) \<Rightarrow> bool" where
  "ieeeZeroRules ops cls =
     ((\<forall>x y. cls x = Zero \<or> cls y = Zero
              \<longrightarrow> cls (fmul ops x y) = Zero \<or> cls (fmul ops x y) = NotANumber)
      \<and> (\<forall>x y. cls y = Zero \<or> cls y = NotANumber
              \<longrightarrow> cls (fdiv ops x y) = Infinite \<or> cls (fdiv ops x y) = NotANumber))"

subsection \<open>cosineSim\<close>

datatype error = IndexOutOfRange

text \<open>
  The loop \<open>for i := range a\<close> of \<open>cosineSim\<close>. The heads of the two lists are
  \<open>a[i]\<close> and \<open>b[i]\<close>; the loop runs over the indices of \<open>a\<close>, and reading \<open>b[i]\<close>
  past the end of \<open>b\<close> is the run-time panic "index out of range".
\<close>

fun cosineLoop :: "'f arith \<Rightarrow> 'f list \<Rightarrow> 'f list \<Rightarrow> 'f \<times> 'f \<times> 'f
                   \<Rightarrow> error + 'f \<times> 'f \<times> 'f" where
  "cosineLoop ops [] b (dot, normA, normB) = Inr (dot, normA, normB)"
| "cosineLoop ops (x # a) [] (dot, normA, normB) = Inl IndexOutOfRange"
| "cosineLoop ops (x # a) (y # b) (dot, normA, normB) =
     cosineLoop ops a b
       (fadd ops dot (fmul ops x y),
        fadd ops normA (fmul ops x x),
        fadd ops normB (fmul ops y y))"

definition cosineSim :: "'f arith \<Rightarrow> 'f list \<Rightarrow> 'f list \<Rightarrow> error + 'f" where
  "cosineSim ops a b =
     (case cosineLoop ops a b (fzero ops, fzero ops, fzero ops) of
        Inl e \<Rightarrow> Inl e
      | Inr (dot, normA, normB) \<Rightarrow>
          Inr (fdiv ops dot (fmul ops (fsqrt ops normA) (fsqrt ops normB))))"

text \<open>
  The formula of the specification, \<open>dot(a,b) / (norm a * norm b)\<close>, with the sums taken from
  the first component on, starting at zero.
\<close>

definition specDot :: "'f arith \<Rightarrow> 'f list \<Rightarrow> 'f list \<Rightarrow> 'f" where
  "specDot ops a b = foldl (\<lambda>s (x, y). fadd ops s (fmul ops x y)) (fzero ops) (zip a b)"

definition specNorm :: "'f arith \<Rightarrow> 'f list \<Rightarrow> 'f" where
  "specNorm ops a = fsqrt ops (foldl (\<lambda>s x. fadd ops s (fmul ops x x)) (fzero ops) a)"

definition specCosine :: "'f arith \<Rightarrow> 'f list \<Rightarrow> 'f list \<Rightarrow> 'f" where
  "specCosine ops a b = fdiv ops (specDot ops a b) (fmul ops (specNorm ops a) (specNorm ops b))"

subsection \<open>The store\<close>

text \<open>
  The structs \<open>document\<close>, \<open>vectorStore\<close> and, local to \<open>retrieveTopK\<close>,
  \<open>scored\<close>. The field \<open>text\<close> of a document is \<open>doc_text\<close> here.
\<close>

record 'f document =
  doc_text :: string
  embedding :: "'f list"

record 'f vectorStore =
  documents :: "'f document list"

record 'f scored =
  Doc :: "'f document"
  Score :: 'f

definition newVectorStore :: "'f vectorStore" where
  "newVectorStore = \<lparr>documents = []\<rparr>"

definition add :: "'f vectorStore \<Rightarrow> 'f document \<Rightarrow> 'f vectorStore" where
  "add vs doc = vs\<lparr>documents := documents vs @ [doc]\<rparr>"

text \<open>The first loop of \<open>retrieveTopK\<close>: one score for each stored document, in order.\<close>

fun scoreLoop :: "'f arith \<Rightarrow> 'f list \<Rightarrow> 'f document list \<Rightarrow> 'f scored list
                  \<Rightarrow> error + 'f scored list" where
  "scoreLoop ops queryVec [] scoredDocs = Inr scoredDocs"
| "scoreLoop ops queryVec (doc # docs) scoredDocs =
     (case cosineSim ops queryVec (embedding doc) of
        Inl e \<Rightarrow> Inl e
      | Inr s \<Rightarrow> scoreLoop ops queryVec docs (scoredDocs @ [\<lparr>Doc = doc, Score = s\<rparr>]))"

text \<open>The last loop: \<open>for i := 0; i < k && i < len(scoredDocs); i++\<close>, which appends
  to the slice \<open>top\<close> (here \<open>topDocs\<close>).\<close>

function topLoop :: "'f scored list \<Rightarrow> int \<Rightarrow> nat \<Rightarrow> 'f document list \<Rightarrow> 'f document list" where
  "topLoop scoredDocs k i topDocs =
     (if int i < k \<and> i < length scoredDocs
      then topLoop scoredDocs k (i + 1) (topDocs @ [Doc (scoredDocs ! i)])
      else topDocs)"
  by pat_completeness auto
termination
  by (relation "measure (\<lambda>(scoredDocs, k, i, topDocs). length scoredDocs - i)") auto

declare topLoop.simps [simp del]

text \<open>
  \<open>retrieveTopK\<close> has a pointer receiver, so the model returns the store next to the
  result. \<open>sort.Slice\<close> is the library's; it is the parameter \<open>sortSlice\<close>, which gets
  the comparison on elements that the Go closure makes on indices.
\<close>

definition retrieveTopK :: "'f arith \<Rightarrow> (('f scored \<Rightarrow> 'f scored \<Rightarrow> bool) \<Rightarrow> 'f scored list \<Rightarrow> 'f scored list)
    \<Rightarrow> 'f vectorStore \<Rightarrow> 'f list \<Rightarrow> int \<Rightarrow> (error + 'f document list) \<times> 'f vectorStore" where
  "retrieveTopK ops sortSlice vs queryVec k =
     (case scoreLoop ops queryVec (documents vs) [] of
        Inl e \<Rightarrow> (Inl e, vs)
      | Inr scoredDocs \<Rightarrow>
          (let sorted = sortSlice (\<lambda>x y. fgt ops (Score x) (Score y)) scoredDocs
           in (Inr (topLoop sorted k 0 []), vs)))"

text \<open>
  What the documentation of package sort promises of \<open>sort.Slice\<close>: the slice is
  permuted, and it comes out in order when the comparison \<open>less\<close> is a transitive ordering (it holds of
  no element and itself, and both it and its negation are transitive).
\<close>

definition strictWeakOrder :: "'a set \<Rightarrow> ('a \<Rightarrow> 'a \<Rightarrow> bool) \<Rightarrow> bool" where
  "strictWeakOrder S lessFn =
     ((\<forall>x \<in> S. \<not> lessFn x x)
      \<and> (\<forall>x \<in> S. \<forall>y \<in> S. \<forall>z \<in> S. lessFn x y \<and> lessFn y z \<longrightarrow> lessFn x z)
      \<and> (\<forall>x \<in> S. \<forall>y \<in> S. \<forall>z \<in> S. \<not> lessFn x y \<and> \<not> lessFn y z \<longrightarrow> \<not> lessFn x z))"

definition sortSliceContract :: "(('a \<Rightarrow> 'a \<Rightarrow> bool) \<Rightarrow> 'a list \<Rightarrow> 'a list) \<Rightarrow> bool" where
  "sortSliceContract sortSlice =
     (\<forall>lessFn xs. mset (sortSlice lessFn xs) = mset xs
        \<and> (strictWeakOrder (set xs) lessFn
             \<longrightarrow> sorted_wrt (\<lambda>x y. \<not> lessFn y x) (sortSlice lessFn xs)))"

text \<open>The similarity of a stored document to the query, by the formula.\<close>

definition similarity :: "'f arith \<Rightarrow> 'f list \<Rightarrow> 'f document \<Rightarrow> 'f" where
  "similarity ops queryVec doc =
     specCosine ops queryVec (take (length queryVec) (embedding doc))"

subsection \<open>Instances of the parameters\<close>

text \<open>
  An arithmetic to run the definitions on: the values of IEEE-754 over exact reals, that
  is finite numbers, the two infinities and not-a-number, without rounding and with a
  single zero.
\<close>

datatype xfloat = Fin real | PosInf | NegInf | NaN

fun xadd :: "xfloat \<Rightarrow> xfloat \<Rightarrow> xfloat" where
  "xadd NaN y = NaN"
| "xadd x NaN = NaN"
| "xadd (Fin a) (Fin b) = Fin (a + b)"
| "xadd (Fin a) y = y"
| "xadd x (Fin b) = x"
| "xadd PosInf PosInf = PosInf"
| "xadd NegInf NegInf = NegInf"
| "xadd x y = NaN"

fun xmul :: "xfloat \<Rightarrow> xfloat \<Rightarrow> xfloat" where
  "xmul NaN y = NaN"
| "xmul x NaN = NaN"
| "xmul (Fin a) (Fin b) = Fin (a * b)"
| "xmul (Fin a) PosInf = (if a = 0 then NaN else if 0 < a then PosInf else NegInf)"
| "xmul (Fin a) NegInf = (if a = 0 then NaN else if 0 < a then NegInf else PosInf)"
| "xmul PosInf (Fin b) = (if b = 0 then NaN else if 0 < b then PosInf else NegInf)"
| "xmul NegInf (Fin b) = (if b = 0 then NaN else if 0 < b then NegInf else PosInf)"
| "xmul PosInf PosInf = PosInf"
| "xmul NegInf NegInf = PosInf"
| "xmul x y = NegInf"

fun xdiv :: "xfloat \<Rightarrow> xfloat \<Rightarrow> xfloat" where
  "xdiv NaN y = NaN"
| "xdiv x NaN = NaN"
| "xdiv (Fin a) (Fin b) =
     (if b = 0 then (if a = 0 then NaN else if 0 < a then PosInf else NegInf)
      else Fin (a / b))"
| "xdiv (Fin a) y = Fin 0"
| "xdiv PosInf (Fin b) = (if b < 0 then NegInf else PosInf)"
| "xdiv NegInf (Fin b) = (if b < 0 then PosInf else NegInf)"
| "xdiv x y = NaN"

fun xsqrt :: "xfloat \<Rightarrow> xfloat" where
  "xsqrt (Fin a) = (if a < 0 then NaN else Fin (sqrt a))"
| "xsqrt PosInf = PosInf"
| "xsqrt x = NaN"

fun xgt :: "xfloat \<Rightarrow> xfloat \<Rightarrow> bool" where
  "xgt NaN y = False"
| "xgt x NaN = False"
| "xgt (Fin a) (Fin b) = (b < a)"
| "xgt PosInf y = (y \<noteq> PosInf)"
| "xgt x NegInf = (x \<noteq> NegInf)"
| "xgt x y = False"

fun xclass :: "xfloat \<Rightarrow> fclass" where
  "xclass (Fin a) = (if a = 0 then Zero else NonZero)"
| "xclass NaN = NotANumber"
| "xclass x = Infinite"

definition exactArith :: "xfloat arith" where
  "exactArith = \<lparr>fzero = Fin 0, fadd = xadd, fmul = xmul, fdiv = xdiv, fsqrt = xsqrt, fgt = xgt\<rparr>"

text \<open>A sort that meets the contract: insertion sort, which keeps equal elements in order.\<close>

fun insertSorted :: "('a \<Rightarrow> 'a \<Rightarrow> bool) \<Rightarrow> 'a \<Rightarrow> 'a list \<Rightarrow> 'a list" where
  "insertSorted lessFn x [] = [x]"
| "insertSorted lessFn x (y # ys) =
     (if lessFn y x then y # insertSorted lessFn x ys else x # y # ys)"

fun insertionSort :: "('a \<Rightarrow> 'a \<Rightarrow> bool) \<Rightarrow> 'a list \<Rightarrow> 'a list" where
  "insertionSort lessFn [] = []"
| "insertionSort lessFn (x # xs) = insertSorted lessFn x (insertionSort lessFn xs)"

section \<open>Theorems about the chunker\<close>

subsection \<open>The words of Fields\<close>

text \<open>
  The words that \<open>Fields\<close> returns are not empty and hold no separator, so joining
  them with single spaces gives the text with its white space normalised.
\<close>

lemma fieldsFrom_words:
  assumes "\<forall>c \<in> set cur. \<not> asciiSpace c" and "w \<in> set (fieldsFrom cur s)"
  shows "w \<noteq> [] \<and> (\<forall>c \<in> set w. \<not> asciiSpace c)"
  using assms
proof (induction s arbitrary: cur)
  case Nil
  then show ?case by (auto split: if_splits)
next
  case (Cons c s)
  show ?case
  proof (cases "asciiSpace c")
    case True
    have e: "\<forall>c \<in> set ([] :: string). \<not> asciiSpace c" by simp
    show ?thesis
    proof (cases "w = cur \<and> cur \<noteq> []")
      case True
      with Cons.prems(1) show ?thesis by simp
    next
      case False
      with Cons.prems(2) \<open>asciiSpace c\<close> have "w \<in> set (fieldsFrom [] s)"
        by (auto split: if_splits)
      from Cons.IH [OF e this] show ?thesis .
    qed
  next
    case False
    with Cons.prems(1) have "\<forall>d \<in> set (cur @ [c]). \<not> asciiSpace d" by auto
    moreover from False Cons.prems(2) have "w \<in> set (fieldsFrom (cur @ [c]) s)" by simp
    ultimately show ?thesis by (rule Cons.IH)
  qed
qed

lemma Fields_words:
  "w \<in> set (Fields s) \<Longrightarrow> w \<noteq> [] \<and> (\<forall>c \<in> set w. \<not> asciiSpace c)"
  unfolding Fields_def by (rule fieldsFrom_words) simp_all

subsection \<open>The fragments are groups of consecutive words\<close>

lemma Join_append:
  "xs \<noteq> [] \<Longrightarrow> ys \<noteq> [] \<Longrightarrow> Join (xs @ ys) sep = Join xs sep @ sep @ Join ys sep"
proof (induction xs sep rule: Join.induct)
  case (1 sep)
  then show ?case by simp
next
  case (2 x sep)
  then show ?case by (cases ys) simp_all
next
  case (3 x y zs sep)
  then show ?case by simp
qed

lemma Join_concat:
  "\<forall>g \<in> set gs. g \<noteq> [] \<Longrightarrow> Join (map (\<lambda>g. Join g sep) gs) sep = Join (concat gs) sep"
proof (induction gs)
  case Nil
  then show ?case by simp
next
  case (Cons g gs)
  show ?case
  proof (cases gs)
    case Nil
    then show ?thesis by simp
  next
    case (Cons h hs)
    with Cons.prems have ne: "g \<noteq> []" "concat gs \<noteq> []" by auto
    have "Join (map (\<lambda>g. Join g sep) (g # gs)) sep
            = Join g sep @ sep @ Join (map (\<lambda>g. Join g sep) gs) sep"
      using Cons by simp
    also have "\<dots> = Join g sep @ sep @ Join (concat gs) sep"
      using Cons.IH Cons.prems by simp
    also have "\<dots> = Join (concat (g # gs)) sep"
      using Join_append [OF ne] by simp
    finally show ?thesis .
  qed
qed

lemma chunkLoop_groups:
  assumes "\<forall>g \<in> set gs. boundedGroup maxLen g"
      and "buf = [] \<or> boundedGroup maxLen buf"
  shows "\<exists>gs' buf'.
           chunkLoop maxLen words (map (\<lambda>g. Join g '' '') gs) buf
             = (map (\<lambda>g. Join g '' '') gs', buf')
           \<and> (\<forall>g \<in> set gs'. boundedGroup maxLen g)
           \<and> (buf' = [] \<or> boundedGroup maxLen buf')
           \<and> concat gs' @ buf' = concat gs @ buf @ words"
  using assms
proof (induction words arbitrary: gs buf)
  case Nil
  then show ?case by auto
next
  case (Cons word words)
  show ?case
  proof (cases "int (length (Join (buf @ [word]) '' '')) > maxLen \<and> length buf > 0")
    case True
    with Cons.prems have b: "boundedGroup maxLen buf" by auto
    have g: "\<forall>g \<in> set (gs @ [buf]). boundedGroup maxLen g"
      using Cons.prems(1) b by auto
    have w: "[word] = [] \<or> boundedGroup maxLen [word]"
      by (simp add: boundedGroup_def)
    from Cons.IH [OF g w] obtain gs' buf' where
      "chunkLoop maxLen words (map (\<lambda>g. Join g '' '') (gs @ [buf])) [word]
         = (map (\<lambda>g. Join g '' '') gs', buf')"
      "\<forall>g \<in> set gs'. boundedGroup maxLen g"
      "buf' = [] \<or> boundedGroup maxLen buf'"
      "concat gs' @ buf' = concat (gs @ [buf]) @ [word] @ words"
      by blast
    with True show ?thesis by (auto simp: Let_def)
  next
    case False
    have b: "buf @ [word] = [] \<or> boundedGroup maxLen (buf @ [word])"
      using False by (auto simp: boundedGroup_def)
    from Cons.IH [OF Cons.prems(1) b] obtain gs' buf' where
      "chunkLoop maxLen words (map (\<lambda>g. Join g '' '') gs) (buf @ [word])
         = (map (\<lambda>g. Join g '' '') gs', buf')"
      "\<forall>g \<in> set gs'. boundedGroup maxLen g"
      "buf' = [] \<or> boundedGroup maxLen buf'"
      "concat gs' @ buf' = concat gs @ (buf @ [word]) @ words"
      by blast
    with False show ?thesis by (auto simp: Let_def)
  qed
qed

lemma chunkText_groups:
  assumes "0 < maxLen"
  shows "\<exists>gs. chunkText fieldsFn text maxLen = map (\<lambda>g. Join g '' '') gs
              \<and> concat gs = fieldsFn text
              \<and> (\<forall>g \<in> set gs. boundedGroup maxLen g)"
proof (cases "fieldsFn text = []")
  case True
  then have "chunkText fieldsFn text maxLen = map (\<lambda>g. Join g '' '') []"
    using assms by (simp add: chunkText_def)
  with True show ?thesis by (metis concat.simps(1) empty_iff list.set(1))
next
  case False
  have "\<forall>g \<in> set ([] :: string list list). boundedGroup maxLen g" by simp
  from chunkLoop_groups [OF this, of "[]" "fieldsFn text"] obtain gs' buf' where
    l: "chunkLoop maxLen (fieldsFn text) [] [] = (map (\<lambda>g. Join g '' '') gs', buf')"
    and g: "\<forall>g \<in> set gs'. boundedGroup maxLen g"
    and b: "buf' = [] \<or> boundedGroup maxLen buf'"
    and c: "concat gs' @ buf' = fieldsFn text"
    by auto
  show ?thesis
  proof (cases "buf' = []")
    case True
    with l False assms have "chunkText fieldsFn text maxLen = map (\<lambda>g. Join g '' '') gs'"
      by (simp add: chunkText_def)
    with g c True show ?thesis by auto
  next
    case nonempty: False
    with l False assms
    have "chunkText fieldsFn text maxLen = map (\<lambda>g. Join g '' '') (gs' @ [buf'])"
      by (simp add: chunkText_def)
    moreover have "concat (gs' @ [buf']) = fieldsFn text" using c by simp
    moreover have "\<forall>g \<in> set (gs' @ [buf']). boundedGroup maxLen g"
      using g b nonempty by auto
    ultimately show ?thesis by blast
  qed
qed

subsection \<open>Properties of the fragments\<close>

text \<open>
  C3. For every text and every maxLen > 0, joining the fragments of
  \<open>chunkText\<close> with single spaces gives the whitespace-normalised text, that is the
  words of the text joined with single spaces. The fragments are the joins of
  non-empty groups of consecutive words that together are the words of the text in their
  order: no word is split, duplicated or dropped. This holds whatever function splits the
  text into words.
\<close>

theorem chunkText_roundtrip:
  assumes "0 < maxLen"
  shows "Join (chunkText fieldsFn text maxLen) '' '' = Join (fieldsFn text) '' ''
         \<and> (\<exists>gs. chunkText fieldsFn text maxLen = map (\<lambda>g. Join g '' '') gs
                  \<and> concat gs = fieldsFn text \<and> (\<forall>g \<in> set gs. g \<noteq> []))"
proof -
  from chunkText_groups [OF assms, of fieldsFn "text"] obtain gs where
    c: "chunkText fieldsFn text maxLen = map (\<lambda>g. Join g '' '') gs"
    and w: "concat gs = fieldsFn text"
    and g: "\<forall>g \<in> set gs. boundedGroup maxLen g"
    by blast
  from g have ne: "\<forall>g \<in> set gs. g \<noteq> []" by (simp add: boundedGroup_def)
  from Join_concat [OF ne, of "'' ''"] c w
  have "Join (chunkText fieldsFn text maxLen) '' '' = Join (fieldsFn text) '' ''" by simp
  with c w ne show ?thesis by blast
qed

theorem chunkText_roundtrip_witness:
  "(0::int) < 10
   \<and> Join (chunkText Fields [CHR '' '', CHR '' '', CHR ''h'', CHR ''i'', CHR 0x09, CHR 0x0A,
                               CHR ''y'', CHR ''o'', CHR ''u'', CHR '' '', CHR ''a'', CHR ''l'', CHR ''l'', CHR '' ''] 5) '' ''
       = ''hi you all''"
  using chunkText_roundtrip [of 5 Fields "[CHR '' '', CHR '' '', CHR ''h'', CHR ''i'', CHR 0x09, CHR 0x0A,
                               CHR ''y'', CHR ''o'', CHR ''u'', CHR '' '', CHR ''a'', CHR ''l'', CHR ''l'', CHR '' '']"]
  by (simp add: Fields_def asciiSpace_def)

text \<open>
  C4. For every text and every maxLen > 0, every fragment of \<open>chunkText\<close> has length
  at most maxLen, except that a fragment made of exactly one word may be longer when
  that word itself is longer than maxLen.
\<close>

theorem chunkText_fragment_bound:
  assumes "0 < maxLen"
  shows "\<exists>gs. chunkText fieldsFn text maxLen = map (\<lambda>g. Join g '' '') gs
              \<and> concat gs = fieldsFn text
              \<and> (\<forall>g \<in> set gs. int (length (Join g '' '')) \<le> maxLen
                     \<or> (\<exists>w. g = [w] \<and> maxLen < int (length w)))"
proof -
  from chunkText_groups [OF assms, of fieldsFn "text"] obtain gs where
    c: "chunkText fieldsFn text maxLen = map (\<lambda>g. Join g '' '') gs"
    and w: "concat gs = fieldsFn text"
    and g: "\<forall>g \<in> set gs. boundedGroup maxLen g"
    by blast
  have "int (length (Join g '' '')) \<le> maxLen \<or> (\<exists>w. g = [w] \<and> maxLen < int (length w))"
    if "g \<in> set gs" for g
  proof (cases "int (length (Join g '' '')) \<le> maxLen")
    case True
    then show ?thesis by simp
  next
    case False
    with g that have "length g = 1" by (auto simp: boundedGroup_def)
    then obtain w where "g = [w]" by (cases g) auto
    with False show ?thesis by simp
  qed
  with c w show ?thesis by blast
qed

theorem chunkText_fragment_bound_witness:
  "(0::int) < 7
   \<and> chunkText Fields ''verylongword is here'' 7 = [''verylongword'', ''is here'']
   \<and> (\<exists>gs. chunkText Fields ''verylongword is here'' 7 = map (\<lambda>g. Join g '' '') gs
             \<and> concat gs = Fields ''verylongword is here'')"
proof -
  have v: "chunkText Fields ''verylongword is here'' 7 = [''verylongword'', ''is here'']"
    by (simp add: chunkText_def Fields_def asciiSpace_def)
  have p: "(0::int) < 7" by simp
  from chunkText_fragment_bound [OF p, of Fields "''verylongword is here''"]
  have "\<exists>gs. chunkText Fields ''verylongword is here'' 7 = map (\<lambda>g. Join g '' '') gs
             \<and> concat gs = Fields ''verylongword is here''"
    by blast
  with v show ?thesis by simp
qed

text \<open>
  C7. For every text and every maxLen \<le> 0, \<open>chunkText\<close> returns the words of the
  text, each as its own fragment, in their order and whatever their length; on
  "hello world" with maxLen 0 it returns "hello" and "world".
\<close>

theorem chunkText_nonpositive:
  "(maxLen \<le> 0 \<longrightarrow> chunkText fieldsFn text maxLen = fieldsFn text)
   \<and> chunkText Fields ''hello world'' 0 = [''hello'', ''world'']"
  by (simp add: chunkText_def Fields_def asciiSpace_def)

theorem chunkText_nonpositive_witness:
  "(-5::int) \<le> 0 \<and> chunkText Fields ''hello world'' (-5) = [''hello'', ''world'']"
  using chunkText_nonpositive [of "-5" Fields "''hello world''"]
  by (simp add: Fields_def asciiSpace_def)

text \<open>
  C8. On the text "this is a test of chunking functionality" with maxLen 10 the chunker
  returns the four fragments "this is a", "test of", "chunking", "functionality", in that
  order.
\<close>

theorem chunkText_example_four_fragments:
  "chunkText Fields ''this is a test of chunking functionality'' 10
     = [''this is a'', ''test of'', ''chunking'', ''functionality'']"
  by (simp add: chunkText_def Fields_def asciiSpace_def Let_def)

section \<open>Theorems about cosineSim\<close>

subsection \<open>What the loop computes\<close>

lemma cosineLoop_short:
  "length b < length a \<Longrightarrow> cosineLoop ops a b acc = Inl IndexOutOfRange"
proof (induction a arbitrary: b acc)
  case Nil
  then show ?case by simp
next
  case (Cons x a)
  obtain dot normA normB where acc: "acc = (dot, normA, normB)" by (cases acc) auto
  show ?case
  proof (cases b)
    case Nil
    with acc show ?thesis by simp
  next
    case (Cons y b')
    with Cons.prems have "length b' < length a" by simp
    with Cons.IH acc Cons show ?thesis by simp
  qed
qed

lemma cosineLoop_paired:
  "length a \<le> length b \<Longrightarrow>
   cosineLoop ops a b (dot, normA, normB)
     = Inr (foldl (\<lambda>s (x, y). fadd ops s (fmul ops x y)) dot (zip a b),
            foldl (\<lambda>s x. fadd ops s (fmul ops x x)) normA a,
            foldl (\<lambda>s x. fadd ops s (fmul ops x x)) normB (take (length a) b))"
proof (induction a arbitrary: b dot normA normB)
  case Nil
  then show ?case by simp
next
  case (Cons x a)
  then obtain y b' where b: "b = y # b'" by (cases b) auto
  with Cons.prems have "length a \<le> length b'" by simp
  from Cons.IH [OF this] b show ?case by simp
qed

lemma zip_take_second: "zip a (take (length a) b) = zip a b"
proof (induction a arbitrary: b)
  case Nil
  then show ?case by simp
next
  case (Cons x a)
  then show ?case by (cases b) simp_all
qed

lemma cosineSim_paired:
  "length a \<le> length b \<Longrightarrow> cosineSim ops a b = Inr (specCosine ops a (take (length a) b))"
  by (simp add: cosineSim_def cosineLoop_paired specCosine_def specDot_def specNorm_def
      zip_take_second)

lemma cosineSim_short:
  "length b < length a \<Longrightarrow> cosineSim ops a b = Inl IndexOutOfRange"
  by (simp add: cosineSim_def cosineLoop_short)

lemma specDot_commute:
  assumes "\<forall>x y. fmul ops x y = fmul ops y x"
  shows "foldl (\<lambda>s (x, y). fadd ops s (fmul ops x y)) d (zip a b)
           = foldl (\<lambda>s (x, y). fadd ops s (fmul ops x y)) d (zip b a)"
proof (induction a arbitrary: b d)
  case Nil
  then show ?case by simp
next
  case (Cons x a)
  show ?case
  proof (cases b)
    case Nil
    then show ?thesis by simp
  next
    case (Cons y b')
    with assms Cons.IH show ?thesis by simp
  qed
qed

subsection \<open>The exact arithmetic obeys the rules assumed of float32\<close>

lemma xmul_commute: "xmul x y = xmul y x"
  by (cases x; cases y) (simp_all add: mult.commute)

lemma exactArith_zero_rules: "ieeeZeroRules exactArith xclass"
proof -
  have m: "xclass (xmul x y) = Zero \<or> xclass (xmul x y) = NotANumber"
    if "xclass x = Zero \<or> xclass y = Zero" for x y
    using that by (cases x; cases y) (auto split: if_splits)
  have d: "xclass (xdiv x y) = Infinite \<or> xclass (xdiv x y) = NotANumber"
    if "xclass y = Zero \<or> xclass y = NotANumber" for x y
    using that by (cases x; cases y) (auto split: if_splits)
  show ?thesis
    unfolding ieeeZeroRules_def using m d by (simp add: exactArith_def)
qed

subsection \<open>Properties of cosineSim\<close>

text \<open>
  C1, as amended. When \<open>a\<close> is not longer than \<open>b\<close>, \<open>cosineSim a b\<close> does not
  fail: it returns \<open>dot(a,b) / (norm a * norm b)\<close> computed on the first
  \<open>min (len a) (len b)\<close> components of both vectors, so a longer \<open>b\<close> is silently
  truncated to the length of \<open>a\<close>.
\<close>

theorem cosineSim_truncates_second:
  assumes "length a \<le> length b"
  shows "cosineSim ops a b
           = Inr (specCosine ops (take (min (length a) (length b)) a)
                                 (take (min (length a) (length b)) b))"
  using assms cosineSim_paired [OF assms, of ops] by (simp add: min_absorb1)

theorem cosineSim_truncates_second_witness:
  "length [Fin 1, Fin 0] \<le> length [Fin 1, Fin 0, Fin 7]
   \<and> cosineSim exactArith [Fin 1, Fin 0] [Fin 1, Fin 0, Fin 7] = Inr (Fin 1)"
  using cosineSim_truncates_second [of "[Fin 1, Fin 0]" "[Fin 1, Fin 0, Fin 7]" exactArith]
  by (simp add: specCosine_def specDot_def specNorm_def exactArith_def)

text \<open>
  The loop runs over the indices of \<open>a\<close>, so with a longer first argument the read
  \<open>b[i]\<close> leaves the slice and the call panics instead of truncating.
\<close>

theorem cosineSim_longer_first_panics:
  "cosineSim exactArith [Fin 1, Fin 2] [Fin 1] = Inl IndexOutOfRange"
  by (simp add: cosineSim_def)

text \<open>
  C9, as amended. When \<open>a\<close> is not longer than \<open>b\<close> and the norm of either vector
  (of \<open>a\<close>, or of \<open>b\<close> cut to the length of \<open>a\<close>) is a zero, \<open>cosineSim a b\<close>
  returns the result of the unguarded division, which is an infinity or not a number,
  in every arithmetic that follows the IEEE-754 rules for a zero factor and for a zero or
  not-a-number divisor.
\<close>

theorem cosineSim_zero_norm:
  assumes "ieeeZeroRules ops cls" and "length a \<le> length b"
      and "cls (specNorm ops a) = Zero \<or> cls (specNorm ops (take (length a) b)) = Zero"
  shows "\<exists>v. cosineSim ops a b = Inr v \<and> (cls v = Infinite \<or> cls v = NotANumber)"
proof -
  let ?den = "fmul ops (specNorm ops a) (specNorm ops (take (length a) b))"
  from assms(1,3) have "cls ?den = Zero \<or> cls ?den = NotANumber"
    unfolding ieeeZeroRules_def by blast
  with assms(1)
  have "cls (fdiv ops (specDot ops a (take (length a) b)) ?den) = Infinite
        \<or> cls (fdiv ops (specDot ops a (take (length a) b)) ?den) = NotANumber"
    unfolding ieeeZeroRules_def by blast
  with cosineSim_paired [OF assms(2), of ops] show ?thesis
    by (simp add: specCosine_def)
qed

theorem cosineSim_zero_norm_witness:
  "length [Fin 0, Fin (0::real)] \<le> length [Fin 1, Fin 2, Fin (3::real)]
   \<and> xclass (specNorm exactArith [Fin 0, Fin 0]) = Zero
   \<and> cosineSim exactArith [Fin 0, Fin 0] [Fin 1, Fin 2, Fin 3] = Inr NaN
   \<and> (\<exists>v. cosineSim exactArith [Fin 0, Fin 0] [Fin 1, Fin 2, Fin 3] = Inr v
          \<and> (xclass v = Infinite \<or> xclass v = NotANumber))"
proof -
  have z: "xclass (specNorm exactArith [Fin 0, Fin 0]) = Zero"
    by (simp add: specNorm_def exactArith_def)
  have l: "length [Fin 0, Fin (0::real)] \<le> length [Fin 1, Fin 2, Fin (3::real)]" by simp
  have v: "cosineSim exactArith [Fin 0, Fin 0] [Fin 1, Fin 2, Fin 3] = Inr NaN"
    by (simp add: cosineSim_def exactArith_def)
  from cosineSim_zero_norm [OF exactArith_zero_rules l] z v
  show ?thesis by simp
qed

text \<open>
  The empty vector has norm zero, but as second argument to a non-empty first one it
  makes the call panic: no value is returned.
\<close>

theorem cosineSim_empty_second_panics:
  "xclass (specNorm exactArith []) = Zero
   \<and> cosineSim exactArith [Fin 1] [] = Inl IndexOutOfRange"
  by (simp add: cosineSim_def specNorm_def exactArith_def)

text \<open>
  C10. For vectors of equal length \<open>cosineSim a b\<close> and \<open>cosineSim b a\<close> return the
  same value, in every arithmetic whose multiplication is commutative, as that of
  float32 is.
\<close>

theorem cosineSim_commutes:
  assumes "\<forall>x y. fmul ops x y = fmul ops y x" and "length a = length b"
  shows "cosineSim ops a b = cosineSim ops b a"
proof -
  have ab: "cosineSim ops a b = Inr (specCosine ops a b)"
    using cosineSim_paired [of a b ops] assms(2) by simp
  have ba: "cosineSim ops b a = Inr (specCosine ops b a)"
    using cosineSim_paired [of b a ops] assms(2) by simp
  have "specDot ops a b = specDot ops b a"
    unfolding specDot_def by (rule specDot_commute [OF assms(1)])
  moreover have "fmul ops (specNorm ops a) (specNorm ops b)
                   = fmul ops (specNorm ops b) (specNorm ops a)"
    using assms(1) by simp
  ultimately have "specCosine ops a b = specCosine ops b a"
    by (simp add: specCosine_def)
  with ab ba show ?thesis by simp
qed

theorem cosineSim_commutes_witness:
  "(\<forall>x y. fmul exactArith x y = fmul exactArith y x)
   \<and> length [Fin 1, Fin 0] = length [Fin 0, Fin 1]
   \<and> cosineSim exactArith [Fin 1, Fin 0] [Fin 0, Fin 1] = Inr (Fin 0)
   \<and> cosineSim exactArith [Fin 0, Fin 1] [Fin 1, Fin 0] = Inr (Fin 0)"
proof -
  have c: "\<forall>x y. fmul exactArith x y = fmul exactArith y x"
    using xmul_commute by (simp add: exactArith_def)
  have l: "length [Fin 1, Fin 0] = length [Fin 0, Fin 1]" by simp
  have "cosineSim exactArith [Fin 1, Fin 0] [Fin 0, Fin 1] = Inr (Fin 0)"
    by (simp add: cosineSim_def exactArith_def)
  with cosineSim_commutes [OF c l] c show ?thesis by simp
qed

section \<open>Theorems about the vector store\<close>

subsection \<open>The loops of retrieveTopK\<close>

lemma take_drop_step:
  assumes "i < n" and "i < length xs"
  shows "take (n - i) (drop i xs) = xs ! i # take (n - Suc i) (drop (Suc i) xs)"
proof -
  from assms(1) obtain m where m: "n - i = Suc m" and m': "n - Suc i = m"
    by (cases "n - i") auto
  from assms(2) have "drop i xs = xs ! i # drop (Suc i) xs"
    by (simp add: Cons_nth_drop_Suc)
  then show ?thesis unfolding m m' by simp
qed

lemma topLoop_take:
  "topLoop scoredDocs k i topDocs = topDocs @ map Doc (take (nat k - i) (drop i scoredDocs))"
proof (induction scoredDocs k i topDocs rule: topLoop.induct)
  case (1 scoredDocs k i topDocs)
  show ?case
  proof (cases "int i < k \<and> i < length scoredDocs")
    case True
    then have "i < nat k" and "i < length scoredDocs" by auto
    from take_drop_step [OF this]
    have t: "take (nat k - i) (drop i scoredDocs)
               = scoredDocs ! i # take (nat k - Suc i) (drop (Suc i) scoredDocs)" .
    from True have "topLoop scoredDocs k i topDocs
                      = topLoop scoredDocs k (i + 1) (topDocs @ [Doc (scoredDocs ! i)])"
      by (subst topLoop.simps) simp
    also have "\<dots> = (topDocs @ [Doc (scoredDocs ! i)])
                       @ map Doc (take (nat k - (i + 1)) (drop (i + 1) scoredDocs))"
      using "1.IH" True by simp
    also have "\<dots> = topDocs @ map Doc (take (nat k - i) (drop i scoredDocs))"
      unfolding t by simp
    finally show ?thesis .
  next
    case False
    then have "take (nat k - i) (drop i scoredDocs) = []" by auto
    moreover from False have "topLoop scoredDocs k i topDocs = topDocs"
      by (subst topLoop.simps) auto
    ultimately show ?thesis by simp
  qed
qed

lemma scoreLoop_scores:
  "\<forall>d \<in> set docs. length queryVec \<le> length (embedding d) \<Longrightarrow>
   scoreLoop ops queryVec docs scoredDocs
     = Inr (scoredDocs @ map (\<lambda>d. \<lparr>Doc = d, Score = similarity ops queryVec d\<rparr>) docs)"
proof (induction docs arbitrary: scoredDocs)
  case Nil
  then show ?case by simp
next
  case (Cons doc docs)
  then show ?case by (simp add: cosineSim_paired similarity_def)
qed

lemma scoreLoop_short:
  "\<exists>d \<in> set docs. length (embedding d) < length queryVec \<Longrightarrow>
   scoreLoop ops queryVec docs scoredDocs = Inl IndexOutOfRange"
proof (induction docs arbitrary: scoredDocs)
  case Nil
  then show ?case by simp
next
  case (Cons doc docs)
  show ?case
  proof (cases "length (embedding doc) < length queryVec")
    case True
    then show ?thesis by (simp add: cosineSim_short)
  next
    case False
    with Cons.prems have "\<exists>d \<in> set docs. length (embedding d) < length queryVec" by auto
    from Cons.IH [OF this] False show ?thesis by (simp add: cosineSim_paired)
  qed
qed

subsection \<open>Insertion sort meets the contract of sort.Slice\<close>

lemma mset_insertSorted: "mset (insertSorted lessFn x ys) = add_mset x (mset ys)"
  by (induction ys) simp_all

lemma mset_insertionSort: "mset (insertionSort lessFn xs) = mset xs"
  by (induction xs) (simp_all add: mset_insertSorted)

lemma set_insertSorted: "set (insertSorted lessFn x ys) = insert x (set ys)"
  by (induction ys) auto

lemma set_insertionSort: "set (insertionSort lessFn xs) = set xs"
  by (induction xs) (simp_all add: set_insertSorted)

lemma sorted_insertSorted:
  assumes "strictWeakOrder S lessFn" and "x \<in> S" and "set ys \<subseteq> S"
      and "sorted_wrt (\<lambda>x y. \<not> lessFn y x) ys"
  shows "sorted_wrt (\<lambda>x y. \<not> lessFn y x) (insertSorted lessFn x ys)"
  using assms(3,4)
proof (induction ys)
  case Nil
  then show ?case by simp
next
  case (Cons y ys)
  from assms(1) have irr: "\<And>u. u \<in> S \<Longrightarrow> \<not> lessFn u u"
    and tr: "\<And>u v w. u \<in> S \<Longrightarrow> v \<in> S \<Longrightarrow> w \<in> S \<Longrightarrow> lessFn u v \<Longrightarrow> lessFn v w \<Longrightarrow> lessFn u w"
    and ntr: "\<And>u v w. u \<in> S \<Longrightarrow> v \<in> S \<Longrightarrow> w \<in> S \<Longrightarrow> \<not> lessFn u v \<Longrightarrow> \<not> lessFn v w \<Longrightarrow> \<not> lessFn u w"
    unfolding strictWeakOrder_def by blast+
  from Cons.prems have yS: "y \<in> S" and ysS: "set ys \<subseteq> S"
    and ys: "sorted_wrt (\<lambda>x y. \<not> lessFn y x) ys" and y: "\<forall>z \<in> set ys. \<not> lessFn z y"
    by auto
  show ?case
  proof (cases "lessFn y x")
    case True
    have "\<not> lessFn x y"
    proof
      assume "lessFn x y"
      with True have "lessFn y y" using tr [OF yS assms(2) yS] by blast
      with irr [OF yS] show False by blast
    qed
    with True y Cons.IH [OF ysS ys] show ?thesis
      by (simp add: set_insertSorted)
  next
    case False
    have "\<not> lessFn z x" if "z \<in> set ys" for z
    proof -
      from that ysS have "z \<in> S" by blast
      moreover from that y have "\<not> lessFn z y" by blast
      ultimately show ?thesis using ntr [OF _ yS assms(2)] False by blast
    qed
    with False y ys show ?thesis by simp
  qed
qed

lemma sorted_insertionSort:
  "strictWeakOrder S lessFn \<Longrightarrow> set xs \<subseteq> S \<Longrightarrow>
   sorted_wrt (\<lambda>x y. \<not> lessFn y x) (insertionSort lessFn xs)"
proof (induction xs)
  case Nil
  then show ?case by simp
next
  case (Cons x xs)
  from Cons.prems have x: "x \<in> S" and xs: "set xs \<subseteq> S" by auto
  from xs have s: "set (insertionSort lessFn xs) \<subseteq> S" by (simp add: set_insertionSort)
  from sorted_insertSorted [OF Cons.prems(1) x s Cons.IH [OF Cons.prems(1) xs]]
  show ?case by simp
qed

lemma insertionSort_contract: "sortSliceContract insertionSort"
proof -
  have "sorted_wrt (\<lambda>x y. \<not> lessFn y x) (insertionSort lessFn xs)"
    if "strictWeakOrder (set xs) lessFn" for lessFn :: "'a \<Rightarrow> 'a \<Rightarrow> bool" and xs
    using sorted_insertionSort [OF that] by simp
  then show ?thesis
    unfolding sortSliceContract_def by (simp add: mset_insertionSort)
qed

subsection \<open>The comparison of the exact arithmetic orders all values but not-a-number\<close>

lemma xgt_irrefl: "\<not> xgt x x"
  by (cases x) simp_all

lemma xgt_trans: "xgt x y \<Longrightarrow> xgt y z \<Longrightarrow> xgt x z"
  by (cases x; cases y; cases z; simp)

lemma xgt_negtrans:
  "x \<noteq> NaN \<Longrightarrow> y \<noteq> NaN \<Longrightarrow> z \<noteq> NaN \<Longrightarrow> \<not> xgt x y \<Longrightarrow> \<not> xgt y z \<Longrightarrow> \<not> xgt x z"
  by (cases x; cases y; cases z; simp)

lemma xgt_strictWeakOrder:
  assumes "NaN \<notin> S"
  shows "strictWeakOrder S xgt"
proof -
  have n: "\<not> xgt x z" if "x \<in> S" "y \<in> S" "z \<in> S" "\<not> xgt x y" "\<not> xgt y z" for x y z
  proof -
    from that assms have "x \<noteq> NaN" "y \<noteq> NaN" "z \<noteq> NaN" by auto
    from xgt_negtrans [OF this that(4,5)] show ?thesis .
  qed
  have t: "xgt x z" if "xgt x y" "xgt y z" for x y z
    using that by (rule xgt_trans)
  show ?thesis
    unfolding strictWeakOrder_def
  proof (intro conjI ballI impI)
    fix x show "\<not> xgt x x" by (rule xgt_irrefl)
  next
    fix x y z assume "xgt x y \<and> xgt y z"
    then show "xgt x z" using t by blast
  next
    fix x y z assume "x \<in> S" "y \<in> S" "z \<in> S" "\<not> xgt x y \<and> \<not> xgt y z"
    then show "\<not> xgt x z" using n by blast
  qed
qed

subsection \<open>The result of retrieveTopK\<close>

lemma retrieveTopK_result:
  assumes "\<forall>d \<in> set (documents vs). length queryVec \<le> length (embedding d)"
  shows "fst (retrieveTopK ops sortSlice vs queryVec k)
           = Inr (map Doc (take (nat k)
                   (sortSlice (\<lambda>x y. fgt ops (Score x) (Score y))
                      (map (\<lambda>d. \<lparr>Doc = d, Score = similarity ops queryVec d\<rparr>) (documents vs)))))"
  by (simp add: retrieveTopK_def scoreLoop_scores [OF assms] topLoop_take)

lemma retrieveTopK_short:
  assumes "\<exists>d \<in> set (documents vs). length (embedding d) < length queryVec"
  shows "fst (retrieveTopK ops sortSlice vs queryVec k) = Inl IndexOutOfRange"
  by (simp add: retrieveTopK_def scoreLoop_short [OF assms])

lemma sortSlice_empty:
  assumes "sortSliceContract sortSlice"
  shows "sortSlice lessFn [] = []"
proof -
  from assms have "mset (sortSlice lessFn []) = mset []"
    unfolding sortSliceContract_def by blast
  then show ?thesis by simp
qed

lemma strictWeakOrder_image:
  assumes "strictWeakOrder (f ` S) lt"
  shows "strictWeakOrder S (\<lambda>x y. lt (f x) (f y))"
proof -
  from assms have irr: "\<And>u. u \<in> f ` S \<Longrightarrow> \<not> lt u u"
    and tr: "\<And>u v w. u \<in> f ` S \<Longrightarrow> v \<in> f ` S \<Longrightarrow> w \<in> f ` S \<Longrightarrow> lt u v \<Longrightarrow> lt v w \<Longrightarrow> lt u w"
    and ntr: "\<And>u v w. u \<in> f ` S \<Longrightarrow> v \<in> f ` S \<Longrightarrow> w \<in> f ` S
                \<Longrightarrow> \<not> lt u v \<Longrightarrow> \<not> lt v w \<Longrightarrow> \<not> lt u w"
    unfolding strictWeakOrder_def by blast+
  show ?thesis
    unfolding strictWeakOrder_def
  proof (intro conjI ballI impI)
    fix x assume "x \<in> S"
    then show "\<not> lt (f x) (f x)" using irr by blast
  next
    fix x y z assume "x \<in> S" "y \<in> S" "z \<in> S" "lt (f x) (f y) \<and> lt (f y) (f z)"
    then show "lt (f x) (f z)" using tr [of "f x" "f y" "f z"] by blast
  next
    fix x y z assume "x \<in> S" "y \<in> S" "z \<in> S" "\<not> lt (f x) (f y) \<and> \<not> lt (f y) (f z)"
    then show "\<not> lt (f x) (f z)" using ntr [of "f x" "f y" "f z"] by blast
  qed
qed

subsection \<open>Properties of add and retrieveTopK\<close>

text \<open>
  C2, as amended. For every index whose stored embeddings each have at least as many
  components as the query, every query and every k \<ge> 1, when the scores are ordered by
  \<open>>\<close> (a transitive ordering, which excludes not-a-number scores) and \<open>sort.Slice\<close>
  keeps its contract, \<open>retrieveTopK\<close> returns exactly the first
  \<open>min k storedCount\<close> entries of the stored fragments ordered by descending cosine
  similarity to the query: no returned entry has a greater score than one before it, and
  with k above the stored count all stored entries are returned, sorted.
\<close>

theorem retrieveTopK_sorted_prefix:
  assumes contract: "sortSliceContract sortSlice"
      and lens: "\<forall>d \<in> set (documents vs). length queryVec \<le> length (embedding d)"
      and order: "strictWeakOrder (similarity ops queryVec ` set (documents vs)) (fgt ops)"
      and k: "1 \<le> k"
  shows "\<exists>ranked.
           mset ranked = mset (documents vs)
           \<and> sorted_wrt (\<lambda>d d'. \<not> fgt ops (similarity ops queryVec d') (similarity ops queryVec d))
                 ranked
           \<and> fst (retrieveTopK ops sortSlice vs queryVec k) = Inr (take (nat k) ranked)
           \<and> length (take (nat k) ranked) = min (nat k) (length (documents vs))"
proof -
  let ?mk = "\<lambda>d. \<lparr>Doc = d, Score = similarity ops queryVec d\<rparr>"
  let ?lt = "\<lambda>x y. fgt ops (Score x) (Score y)"
  let ?sd = "map ?mk (documents vs)"
  let ?sorted = "sortSlice ?lt ?sd"
  let ?ranked = "map Doc ?sorted"
  from contract have perm: "mset ?sorted = mset ?sd"
    unfolding sortSliceContract_def by blast
  then have sets: "set ?sorted = set ?sd" by (rule mset_eq_setD)
  have sc: "Score x = similarity ops queryVec (Doc x)" if "x \<in> set ?sd" for x
    using that by auto
  have "Score ` set ?sd = similarity ops queryVec ` set (documents vs)"
    by (simp add: image_image)
  with order have "strictWeakOrder (Score ` set ?sd) (fgt ops)" by simp
  then have "strictWeakOrder (set ?sd) ?lt" by (rule strictWeakOrder_image)
  with contract have srt: "sorted_wrt (\<lambda>x y. \<not> ?lt y x) ?sorted"
    unfolding sortSliceContract_def by blast
  have "sorted_wrt (\<lambda>x y. \<not> fgt ops (similarity ops queryVec (Doc y))
                                       (similarity ops queryVec (Doc x))) ?sorted"
  proof (rule sorted_wrt_mono_rel [OF _ srt])
    fix x y assume "x \<in> set ?sorted" "y \<in> set ?sorted" "\<not> fgt ops (Score y) (Score x)"
    with sets sc show "\<not> fgt ops (similarity ops queryVec (Doc y))
                                 (similarity ops queryVec (Doc x))"
      by simp
  qed
  then have s: "sorted_wrt (\<lambda>d d'. \<not> fgt ops (similarity ops queryVec d')
                                            (similarity ops queryVec d)) ?ranked"
    by (simp add: sorted_wrt_map)
  have "mset ?ranked = image_mset Doc (mset ?sorted)" by simp
  also have "\<dots> = image_mset Doc (mset ?sd)" by (simp only: perm)
  also have "\<dots> = mset (map Doc ?sd)" by (simp only: mset_map)
  also have "map Doc ?sd = documents vs" by (simp add: comp_def)
  finally have m: "mset ?ranked = mset (documents vs)" .
  then have "length ?ranked = length (documents vs)" by (rule mset_eq_length)
  then have l: "length (take (nat k) ?ranked) = min (nat k) (length (documents vs))"
    by (simp add: min.commute)
  have r: "fst (retrieveTopK ops sortSlice vs queryVec k) = Inr (take (nat k) ?ranked)"
    by (simp add: retrieveTopK_result [OF lens] take_map)
  from m s r l show ?thesis by blast
qed

theorem retrieveTopK_sorted_prefix_witness:
  "(1::int) \<le> 2
   \<and> fst (retrieveTopK exactArith insertionSort
          \<lparr>documents = [\<lparr>doc_text = ''orthogonal'', embedding = [Fin 0, Fin 1]\<rparr>,
                        \<lparr>doc_text = ''perfect match'', embedding = [Fin 1, Fin 0]\<rparr>,
                        \<lparr>doc_text = ''opposite'', embedding = [Fin (- 1), Fin 0]\<rparr>]\<rparr>
          [Fin 1, Fin 0] 2)
       = Inr [\<lparr>doc_text = ''perfect match'', embedding = [Fin 1, Fin 0]\<rparr>,
              \<lparr>doc_text = ''orthogonal'', embedding = [Fin 0, Fin 1]\<rparr>]
   \<and> (\<exists>ranked.
          mset ranked = mset (documents
            \<lparr>documents = [\<lparr>doc_text = ''orthogonal'', embedding = [Fin 0, Fin 1]\<rparr>,
                        \<lparr>doc_text = ''perfect match'', embedding = [Fin 1, Fin 0]\<rparr>,
                        \<lparr>doc_text = ''opposite'', embedding = [Fin (- 1), Fin 0]\<rparr>]\<rparr>)
          \<and> sorted_wrt (\<lambda>d d'. \<not> fgt exactArith (similarity exactArith [Fin 1, Fin 0] d')
                                                    (similarity exactArith [Fin 1, Fin 0] d)) ranked
          \<and> fst (retrieveTopK exactArith insertionSort
                \<lparr>documents = [\<lparr>doc_text = ''orthogonal'', embedding = [Fin 0, Fin 1]\<rparr>,
                        \<lparr>doc_text = ''perfect match'', embedding = [Fin 1, Fin 0]\<rparr>,
                        \<lparr>doc_text = ''opposite'', embedding = [Fin (- 1), Fin 0]\<rparr>]\<rparr>
                [Fin 1, Fin 0] 2) = Inr (take (nat 2) ranked)
          \<and> length (take (nat 2) ranked) = min (nat 2) (length (documents
                \<lparr>documents = [\<lparr>doc_text = ''orthogonal'', embedding = [Fin 0, Fin 1]\<rparr>,
                        \<lparr>doc_text = ''perfect match'', embedding = [Fin 1, Fin 0]\<rparr>,
                        \<lparr>doc_text = ''opposite'', embedding = [Fin (- 1), Fin 0]\<rparr>]\<rparr>)))"
  (is "?k \<and> ?v \<and> ?t")
proof -
  let ?vs = "\<lparr>documents = [\<lparr>doc_text = ''orthogonal'', embedding = [Fin 0, Fin 1]\<rparr>,
                        \<lparr>doc_text = ''perfect match'', embedding = [Fin 1, Fin 0]\<rparr>,
                        \<lparr>doc_text = ''opposite'', embedding = [Fin (- 1), Fin 0]\<rparr>]\<rparr>"
  have c: "sortSliceContract (insertionSort :: (xfloat scored \<Rightarrow> xfloat scored \<Rightarrow> bool) \<Rightarrow> _)"
    by (rule insertionSort_contract)
  have l: "\<forall>d \<in> set (documents ?vs). length [Fin 1, Fin 0] \<le> length (embedding d)"
    by simp
  have "similarity exactArith [Fin 1, Fin 0] ` set (documents ?vs)
          = {Fin 0, Fin 1, Fin (- 1)}"
    by (simp add: similarity_def specCosine_def specDot_def specNorm_def exactArith_def)
  moreover have "strictWeakOrder {Fin 0, Fin 1, Fin (- 1)} xgt"
    by (rule xgt_strictWeakOrder) simp
  ultimately have o: "strictWeakOrder (similarity exactArith [Fin 1, Fin 0] ` set (documents ?vs))
                        (fgt exactArith)"
    by (simp add: exactArith_def)
  have k: ?k by simp
  have v: ?v by (simp add: retrieveTopK_def cosineSim_def exactArith_def topLoop_take)
  from retrieveTopK_sorted_prefix [OF c l o k] have t: ?t .
  from k v t show ?thesis by blast
qed

text \<open>
  A stored embedding shorter than the query makes \<open>cosineSim\<close> read past its end, and
  \<open>retrieveTopK\<close> panics instead of returning entries.
\<close>

theorem retrieveTopK_short_embedding_panics:
  "fst (retrieveTopK exactArith insertionSort
          \<lparr>documents = [\<lparr>doc_text = ''doc1'', embedding = [Fin 1]\<rparr>]\<rparr> [Fin 1, Fin 0] 1)
     = Inl IndexOutOfRange"
  by (simp add: retrieveTopK_def cosineSim_def)

text \<open>
  A score that is not a number compares false with every score, so the comparison is no
  ordering and the order of the result is not descending: insertion sort, which the
  library runs on a slice this short, leaves the three entries below as they are stored,
  the best match last.
\<close>

lemma retrieveTopK_nan_score_unsorted:
  "fst (retrieveTopK exactArith insertionSort
          \<lparr>documents = [\<lparr>doc_text = ''orthogonal'', embedding = [Fin 0, Fin 1]\<rparr>,
                        \<lparr>doc_text = ''zero'', embedding = [Fin 0, Fin 0]\<rparr>,
                        \<lparr>doc_text = ''perfect match'', embedding = [Fin 1, Fin 0]\<rparr>]\<rparr>
          [Fin 1, Fin 0] 1)
     = Inr [\<lparr>doc_text = ''orthogonal'', embedding = [Fin 0, Fin 1]\<rparr>]"
  by (simp add: retrieveTopK_def cosineSim_def exactArith_def topLoop_take)

text \<open>
  C5, as amended. \<open>retrieveTopK\<close> returns the empty sequence, and no error, on the
  empty index for every k and every query, and for k \<le> 0 on every index whose stored
  embeddings each have at least as many components as the query.
\<close>

theorem retrieveTopK_empty_cases:
  assumes "sortSliceContract sortSlice"
  shows "(documents vs = [] \<longrightarrow> fst (retrieveTopK ops sortSlice vs queryVec k) = Inr [])
         \<and> (k \<le> 0 \<and> (\<forall>d \<in> set (documents vs). length queryVec \<le> length (embedding d))
              \<longrightarrow> fst (retrieveTopK ops sortSlice vs queryVec k) = Inr [])"
proof (intro conjI impI)
  assume "documents vs = []"
  then show "fst (retrieveTopK ops sortSlice vs queryVec k) = Inr []"
    by (simp add: retrieveTopK_def sortSlice_empty [OF assms] topLoop_take)
next
  assume "k \<le> 0 \<and> (\<forall>d \<in> set (documents vs). length queryVec \<le> length (embedding d))"
  then have k: "nat k = 0"
    and l: "\<forall>d \<in> set (documents vs). length queryVec \<le> length (embedding d)"
    by auto
  show "fst (retrieveTopK ops sortSlice vs queryVec k) = Inr []"
    by (simp add: retrieveTopK_result [OF l] k)
qed

theorem retrieveTopK_empty_cases_witness:
  "documents (newVectorStore :: xfloat vectorStore) = []
   \<and> fst (retrieveTopK exactArith insertionSort newVectorStore [Fin 1, Fin 0] 3) = Inr []
   \<and> (0::int) \<le> 0
   \<and> length [Fin 1, Fin (0::real)] \<le> length (embedding \<lparr>doc_text = ''doc1'', embedding = [Fin 1, Fin 0]\<rparr>)
   \<and> fst (retrieveTopK exactArith insertionSort
            \<lparr>documents = [\<lparr>doc_text = ''doc1'', embedding = [Fin 1, Fin 0]\<rparr>]\<rparr>
            [Fin 1, Fin 0] 0) = Inr []"
  using retrieveTopK_empty_cases
          [OF insertionSort_contract, of newVectorStore exactArith "[Fin 1, Fin 0]" 3]
        retrieveTopK_empty_cases
          [OF insertionSort_contract,
           of "\<lparr>documents = [\<lparr>doc_text = ''doc1'', embedding = [Fin 1, Fin 0]\<rparr>]\<rparr>"
              exactArith "[Fin 1, Fin 0]" 0]
  by (simp add: newVectorStore_def)

text \<open>
  The scores are computed before k is looked at, so a stored embedding shorter than the
  query makes the call panic even for k = 0.
\<close>

theorem retrieveTopK_zero_k_panics:
  "fst (retrieveTopK exactArith insertionSort
          \<lparr>documents = [\<lparr>doc_text = ''doc1'', embedding = []\<rparr>]\<rparr> [Fin 1] 0)
     = Inl IndexOutOfRange"
  by (simp add: retrieveTopK_def cosineSim_def)

text \<open>
  C6. Every operation preserves the stored fragments: \<open>add\<close> appends the new
  fragment, which makes the stored sequence one longer and leaves the fragments stored
  before and their order as they were; \<open>retrieveTopK\<close> leaves the store unchanged, and
  its result is determined by the stored fragments, the query and k.
\<close>

theorem store_preserved:
  "documents (add vs doc) = documents vs @ [doc]
   \<and> length (documents (add vs doc)) = length (documents vs) + 1
   \<and> take (length (documents vs)) (documents (add vs doc)) = documents vs
   \<and> snd (retrieveTopK ops sortSlice vs queryVec k) = vs
   \<and> (documents vs' = documents vs
        \<longrightarrow> fst (retrieveTopK ops sortSlice vs' queryVec k)
            = fst (retrieveTopK ops sortSlice vs queryVec k))"
  by (simp add: add_def retrieveTopK_def split: sum.split)

theorem store_preserved_witness:
  "documents (add \<lparr>documents = [\<lparr>doc_text = ''doc1'', embedding = [Fin 1, Fin 0]\<rparr>]\<rparr>
                  \<lparr>doc_text = ''doc2'', embedding = [Fin 0, Fin 1]\<rparr>)
     = [\<lparr>doc_text = ''doc1'', embedding = [Fin 1, Fin 0]\<rparr>,
        \<lparr>doc_text = ''doc2'', embedding = [Fin 0, Fin 1]\<rparr>]
   \<and> snd (retrieveTopK exactArith insertionSort
            \<lparr>documents = [\<lparr>doc_text = ''doc1'', embedding = [Fin 1, Fin 0]\<rparr>]\<rparr> [Fin 1, Fin 0] 1)
       = \<lparr>documents = [\<lparr>doc_text = ''doc1'', embedding = [Fin 1, Fin 0]\<rparr>]\<rparr>
   \<and> documents \<lparr>documents = [\<lparr>doc_text = ''doc1'', embedding = [Fin 1, Fin 0]\<rparr>]\<rparr>
       = documents \<lparr>documents = [\<lparr>doc_text = ''doc1'', embedding = [Fin 1, Fin 0]\<rparr>]\<rparr>
   \<and> fst (retrieveTopK exactArith insertionSort
            \<lparr>documents = [\<lparr>doc_text = ''doc1'', embedding = [Fin 1, Fin 0]\<rparr>]\<rparr> [Fin 1, Fin 0] 1)
       = Inr [\<lparr>doc_text = ''doc1'', embedding = [Fin 1, Fin 0]\<rparr>]"
proof -
  have "fst (retrieveTopK exactArith insertionSort
            \<lparr>documents = [\<lparr>doc_text = ''doc1'', embedding = [Fin 1, Fin 0]\<rparr>]\<rparr> [Fin 1, Fin 0] 1)
       = Inr [\<lparr>doc_text = ''doc1'', embedding = [Fin 1, Fin 0]\<rparr>]"
    by (simp add: retrieveTopK_def cosineSim_def exactArith_def topLoop_take)
  with store_preserved
         [of "\<lparr>documents = [\<lparr>doc_text = ''doc1'', embedding = [Fin 1, Fin 0]\<rparr>]\<rparr>"
             "\<lparr>doc_text = ''doc2'', embedding = [Fin 0, Fin 1]\<rparr>"
             exactArith insertionSort "[Fin 1, Fin 0]" 1
             "\<lparr>documents = [\<lparr>doc_text = ''doc1'', embedding = [Fin 1, Fin 0]\<rparr>]\<rparr>"]
  show ?thesis by simp
qed

end
